theory Spec2Isabelle
  imports Main
begin

section \<open>Tic-Tac-Toe: the game state of app.js\<close>

text \<open>
  The program keeps its state in variables of one closure: the array \<open>cells\<close> (nine
  entries, each \<open>null\<close>, \<open>'X'\<close> or \<open>'O'\<close>), \<open>currentPlayer\<close>, \<open>finished\<close>,
  \<open>isProcessing\<close> and the object \<open>score\<close>. Two event handlers change it: the click
  handler of a board cell and the click handler of the reset button. Both run to
  completion, so each is a function from the state before to the state after.

  The marks \<open>'X'\<close> and \<open>'O'\<close> are the constructors \<open>MarkX\<close> and \<open>MarkO\<close>; a cell is
  \<open>None\<close> for \<open>null\<close>. The counters of \<open>score\<close> are JavaScript numbers that start at 0
  and change only by \<open>++\<close>, so they are whole numbers; they are natural numbers here, and
  \<open>incr\<close> below is what \<open>++\<close> does to them.
\<close>

datatype player = MarkX | MarkO

type_synonym cell = "player option"

text \<open>What reading \<open>cells[i]\<close> gives: \<open>undefined\<close> outside the array, the entry inside.\<close>

datatype jsval = Undefined | Val cell

record tally =
  scoreX :: nat
  scoreO :: nat
  draws :: nat

record game =
  cells :: "cell list"
  currentPlayer :: player
  finished :: bool
  isProcessing :: bool
  score :: tally

definition init :: game where
  "init = \<lparr> cells = replicate 9 None, currentPlayer = MarkX, finished = False,
            isProcessing = False, score = \<lparr> scoreX = 0, scoreO = 0, draws = 0 \<rparr> \<rparr>"

definition cells_at :: "cell list \<Rightarrow> int \<Rightarrow> jsval" where
  "cells_at cs i = (if 0 \<le> i \<and> i < int (length cs) then Val (cs ! nat i) else Undefined)"

subsection \<open>Win and draw detection\<close>

text \<open>The constant \<open>wins\<close>: rows, then columns, then the two diagonals.\<close>

definition wins :: "(int \<times> int \<times> int) list" where
  "wins = [(0,1,2), (3,4,5), (6,7,8),
           (0,3,6), (1,4,7), (2,5,8),
           (0,4,8), (2,4,6)]"

text \<open>The value \<open>checkWin\<close> returns: \<open>{winner, combo}\<close>, \<open>{draw: true}\<close>, or \<open>null\<close> (\<open>None\<close>).\<close>

datatype result = Winner player "int \<times> int \<times> int" | Draw

text \<open>
  The loop \<open>for (const combo of wins)\<close>. The test
  \<open>cells[a] && cells[a] === cells[b] && cells[a] === cells[c]\<close> holds when \<open>cells[a]\<close>
  is a mark (the only truthy entries) and the other two reads are the same mark.
\<close>

fun scan :: "cell list \<Rightarrow> (int \<times> int \<times> int) list \<Rightarrow> result option" where
  "scan cs [] = None"
| "scan cs ((a, b, c) # rest) =
     (case cells_at cs a of
        Val (Some p) \<Rightarrow>
          (if cells_at cs a = cells_at cs b \<and> cells_at cs a = cells_at cs c
           then Some (Winner p (a, b, c))
           else scan cs rest)
      | _ \<Rightarrow> scan cs rest)"

definition checkWin :: "cell list \<Rightarrow> result option" where
  "checkWin cs =
     (case scan cs wins of
        Some r \<Rightarrow> Some r
      | None \<Rightarrow> if list_all (\<lambda>c. c \<noteq> None) cs then Some Draw else None)"

text \<open>
  The words of the specification: a triple holds three identical non-empty marks.
  \<open>line_of cs t\<close> is the mark when it does.
\<close>

definition line_of :: "cell list \<Rightarrow> int \<times> int \<times> int \<Rightarrow> player option" where
  "line_of cs t =
     (case t of (a, b, c) \<Rightarrow>
        (if cells_at cs a = Val (Some MarkX) \<and> cells_at cs b = Val (Some MarkX)
            \<and> cells_at cs c = Val (Some MarkX) then Some MarkX
         else if cells_at cs a = Val (Some MarkO) \<and> cells_at cs b = Val (Some MarkO)
            \<and> cells_at cs c = Val (Some MarkO) then Some MarkO
         else None))"

subsection \<open>Validating a move\<close>

text \<open>
  The board element holds the nine buttons built at start-up, with \<open>data-index\<close> 0 to 8,
  and the program never changes that attribute. So
  \<open>board.querySelector(`[data-index='${idx}']`)\<close> finds the button of \<open>idx\<close> when
  \<open>idx\<close> is one of 0 to 8 and gives \<open>null\<close> (\<open>None\<close>) for any other number.
\<close>

definition querySelector :: "int \<Rightarrow> int option" where
  "querySelector idx = (if 0 \<le> idx \<and> idx < 9 then Some idx else None)"

text \<open>
  The reason handed to \<open>showInvalidFeedback\<close>: \<open>'move already processing'\<close>,
  \<open>'game finished'\<close>, or \<open>`cell already occupied by ${cells[idx]}`\<close> with the value read.
\<close>

datatype reason = Busy | GameOver | CellOccupied jsval

datatype exn = TypeError

text \<open>
  \<open>showInvalidFeedback(cell, reason)\<close> starts with \<open>cell.classList.add(...)\<close>, which
  throws a TypeError when \<open>cell\<close> is \<open>null\<close>, before anything is logged. On a button it
  marks the button and logs the reason; neither touches the game state.
\<close>

definition showInvalidFeedback :: "int option \<Rightarrow> reason \<Rightarrow> exn + unit" where
  "showInvalidFeedback cell r = (case cell of None \<Rightarrow> Inl TypeError | Some _ \<Rightarrow> Inr ())"

text \<open>
  \<open>validateMove\<close> returns \<open>true\<close> (\<open>Proceed\<close>) or, after the feedback for a reason,
  \<open>false\<close> (\<open>Refuse\<close> with that reason); an exception of the feedback leaves it.
\<close>

datatype verdict = Proceed | Refuse reason

definition refuse :: "int option \<Rightarrow> reason \<Rightarrow> exn + verdict" where
  "refuse cell r =
     (case showInvalidFeedback cell r of Inl e \<Rightarrow> Inl e | Inr _ \<Rightarrow> Inr (Refuse r))"

definition validateMove :: "game \<Rightarrow> int \<Rightarrow> exn + verdict" where
  "validateMove g idx =
     (let cell = querySelector idx in
      if isProcessing g then refuse cell Busy
      else if finished g then refuse cell GameOver
      else if cells_at (cells g) idx \<noteq> Val None
        then refuse cell (CellOccupied (cells_at (cells g) idx))
      else Inr Proceed)"

subsection \<open>The click handler of a cell\<close>

text \<open>
  What the handler of the cell with \<open>data-index\<close> \<open>idx\<close> shows for the click: the invalid-move
  feedback, the result banner, or the prompt for the next player. An exception of
  \<open>validateMove\<close> ends the handler before it changes anything.

  The write \<open>cells[idx] = currentPlayer\<close> is reached only after \<open>cells[idx]\<close> was read as
  \<open>null\<close>, so \<open>idx\<close> is inside the array there.

  The handler takes \<open>idx\<close> from the \<open>data-index\<close> of its own button, one of 0 to 8. For
  any other number \<open>cell_click\<close> is what the handler's code does with that number.
  The other calls into the page (the banner, the status line, the scoreboard) act on
  elements that the start-up code has created and mounted; they do not fail and do not
  touch the game state.
\<close>

datatype outcome = Rejected reason | GameEnded result | Continued player

text \<open>
  The increment \<open>++\<close> of a counter. A JavaScript number is a double: below
  \<open>2 ^ 53 = 9007199254740992\<close> adding 1 is exact, and at \<open>2 ^ 53\<close> the sum rounds back to
  \<open>2 ^ 53\<close>, so a counter that counts up from 0 stops there. The comparison is made
  on \<open>int\<close>, whose numerals are binary, so that it evaluates.
\<close>

definition incr :: "nat \<Rightarrow> nat" where
  "incr n = (if int n < 9007199254740992 then n + 1 else n)"

text \<open>\<open>score[result.winner]++\<close>.\<close>

definition credit :: "player \<Rightarrow> tally \<Rightarrow> tally" where
  "credit p t = (case p of MarkX \<Rightarrow> t\<lparr>scoreX := incr (scoreX t)\<rparr>
                         | MarkO \<Rightarrow> t\<lparr>scoreO := incr (scoreO t)\<rparr>)"

definition toggle :: "player \<Rightarrow> player" where
  "toggle p = (if p = MarkX then MarkO else MarkX)"

definition cell_click :: "game \<Rightarrow> int \<Rightarrow> (exn + outcome) \<times> game" where
  "cell_click g idx =
     (case validateMove g idx of
        Inl e \<Rightarrow> (Inl e, g)
      | Inr (Refuse r) \<Rightarrow> (Inr (Rejected r), g)
      | Inr Proceed \<Rightarrow>
          (let g1 = g\<lparr>isProcessing := True\<rparr>;
               g2 = g1\<lparr>cells := (cells g1)[nat idx := Some (currentPlayer g1)]\<rparr>
           in case checkWin (cells g2) of
                Some r \<Rightarrow>
                  (let g3 = (case r of
                               Winner p combo \<Rightarrow> g2\<lparr>score := credit p (score g2)\<rparr>
                             | Draw \<Rightarrow> g2\<lparr>score := (score g2)\<lparr>draws := incr (draws (score g2))\<rparr>\<rparr>);
                       g4 = g3\<lparr>finished := True\<rparr>
                   in (Inr (GameEnded r), g4\<lparr>isProcessing := False\<rparr>))
              | None \<Rightarrow>
                  (let g3 = g2\<lparr>currentPlayer := toggle (currentPlayer g2)\<rparr>
                   in (Inr (Continued (currentPlayer g3)), g3\<lparr>isProcessing := False\<rparr>))))"

subsection \<open>The click handler on a page whose buttons carry other indices\<close>

text \<open>
  The handler runs with the number that the \<open>data-index\<close> of the clicked button reads as,
  and \<open>validateMove\<close> looks the button up again by that number. Both depend on the page
  only through the \<open>data-index\<close> values of the buttons of the board, here the list
  \<open>labels\<close> in document order; \<open>built\<close> is the list after start-up. The lookup gives the
  first button with the value asked for, or \<open>null\<close>. \<open>validateMove_on\<close> and
  \<open>cell_click_on\<close> are the same code as above, read on such a page; on \<open>built\<close> they are
  \<open>validateMove\<close> and \<open>cell_click\<close> (\<open>cell_click_on_built\<close> below).
\<close>

definition built :: "int list" where
  "built = [0, 1, 2, 3, 4, 5, 6, 7, 8]"

definition querySelector_on :: "int list \<Rightarrow> int \<Rightarrow> int option" where
  "querySelector_on labels idx = find (\<lambda>l. l = idx) labels"

definition validateMove_on :: "int list \<Rightarrow> game \<Rightarrow> int \<Rightarrow> exn + verdict" where
  "validateMove_on labels g idx =
     (let cell = querySelector_on labels idx in
      if isProcessing g then refuse cell Busy
      else if finished g then refuse cell GameOver
      else if cells_at (cells g) idx \<noteq> Val None
        then refuse cell (CellOccupied (cells_at (cells g) idx))
      else Inr Proceed)"

definition cell_click_on :: "int list \<Rightarrow> game \<Rightarrow> int \<Rightarrow> (exn + outcome) \<times> game" where
  "cell_click_on labels g idx =
     (case validateMove_on labels g idx of
        Inl e \<Rightarrow> (Inl e, g)
      | Inr (Refuse r) \<Rightarrow> (Inr (Rejected r), g)
      | Inr Proceed \<Rightarrow>
          (let g1 = g\<lparr>isProcessing := True\<rparr>;
               g2 = g1\<lparr>cells := (cells g1)[nat idx := Some (currentPlayer g1)]\<rparr>
           in case checkWin (cells g2) of
                Some r \<Rightarrow>
                  (let g3 = (case r of
                               Winner p combo \<Rightarrow> g2\<lparr>score := credit p (score g2)\<rparr>
                             | Draw \<Rightarrow> g2\<lparr>score := (score g2)\<lparr>draws := incr (draws (score g2))\<rparr>\<rparr>);
                       g4 = g3\<lparr>finished := True\<rparr>
                   in (Inr (GameEnded r), g4\<lparr>isProcessing := False\<rparr>))
              | None \<Rightarrow>
                  (let g3 = g2\<lparr>currentPlayer := toggle (currentPlayer g2)\<rparr>
                   in (Inr (Continued (currentPlayer g3)), g3\<lparr>isProcessing := False\<rparr>))))"

subsection \<open>The click handler of the reset button\<close>

text \<open>
  The loop \<open>for (let i = 0; i < 9; i++) cells[i] = null\<close>. The array has nine entries in
  every state of a session (\<open>session_board_ok\<close> below), so each write is inside it; a
  list update outside the list, where JavaScript would grow the array, does not occur.
\<close>

definition clear_cells :: "cell list \<Rightarrow> cell list" where
  "clear_cells cs = fold (\<lambda>i xs. xs[i := None]) [0..<9] cs"

definition reset :: "game \<Rightarrow> game" where
  "reset g = g\<lparr>cells := clear_cells (cells g), finished := False,
               isProcessing := False, currentPlayer := MarkX\<rparr>"

subsection \<open>Sessions\<close>

text \<open>A session is a sequence of clicks, on cells and on the reset button, from \<open>init\<close>.\<close>

datatype event = Click int | ResetClick

fun step :: "game \<Rightarrow> event \<Rightarrow> game" where
  "step g (Click idx) = snd (cell_click g idx)"
| "step g ResetClick = reset g"

definition run :: "game \<Rightarrow> event list \<Rightarrow> game" where
  "run g evs = foldl step g evs"

text \<open>The array keeps its nine entries.\<close>

definition board_ok :: "game \<Rightarrow> bool" where
  "board_ok g = (length (cells g) = 9)"

text \<open>
  The marks placed by the accepted moves of a sequence of cell clicks, in order: a click
  is accepted when \<open>validateMove\<close> returns \<open>true\<close>, and it places \<open>currentPlayer\<close>.
\<close>

fun movers :: "game \<Rightarrow> int list \<Rightarrow> player list" where
  "movers g [] = []"
| "movers g (idx # rest) =
     (if validateMove g idx = Inr Proceed
      then currentPlayer g # movers (snd (cell_click g idx)) rest
      else movers (snd (cell_click g idx)) rest)"

section \<open>Properties of the win evaluation\<close>

lemma scan_step:
  "scan cs (t # rest) =
     (case line_of cs t of Some p \<Rightarrow> Some (Winner p t) | None \<Rightarrow> scan cs rest)"
proof (cases t)
  case (fields a b c)
  show ?thesis
  proof (cases "cells_at cs a")
    case Undefined
    with fields show ?thesis by (simp add: line_of_def)
  next
    case (Val v)
    show ?thesis
    proof (cases v)
      case None
      with Val fields show ?thesis by (simp add: line_of_def)
    next
      case (Some p)
      with Val fields show ?thesis
        by (cases p) (auto simp: line_of_def)
    qed
  qed
qed

lemma scan_none:
  "(\<forall>t \<in> set ws. line_of cs t = None) \<Longrightarrow> scan cs ws = None"
  by (induction ws) (simp_all add: scan_step del: scan.simps(2))

lemma scan_first:
  "i < length ws \<Longrightarrow> line_of cs (ws ! i) = Some p \<Longrightarrow>
   (\<forall>j<i. line_of cs (ws ! j) = None) \<Longrightarrow> scan cs ws = Some (Winner p (ws ! i))"
proof (induction ws arbitrary: i)
  case Nil
  then show ?case by simp
next
  case (Cons t rest)
  show ?case
  proof (cases i)
    case 0
    with Cons.prems show ?thesis by (simp add: scan_step del: scan.simps(2))
  next
    case (Suc k)
    from Cons.prems(3) Suc have head: "line_of cs t = None" by auto
    from Cons.prems(3) Suc have "\<forall>j<k. line_of cs (rest ! j) = None" by auto
    with Cons.IH [of k] Cons.prems(1,2) Suc have "scan cs rest = Some (Winner p (rest ! k))"
      by simp
    with head Suc show ?thesis by (simp add: scan_step del: scan.simps(2))
  qed
qed

lemma first_line_exists:
  "t \<in> set ws \<Longrightarrow> line_of cs t = Some p \<Longrightarrow>
   \<exists>i<length ws. \<exists>q. line_of cs (ws ! i) = Some q \<and> (\<forall>j<i. line_of cs (ws ! j) = None)"
proof (induction ws)
  case Nil
  then show ?case by simp
next
  case (Cons u rest)
  show ?case
  proof (cases "line_of cs u")
    case (Some q)
    then have "line_of cs ((u # rest) ! 0) = Some q \<and>
               (\<forall>j<0. line_of cs ((u # rest) ! j) = None)" by simp
    then show ?thesis by blast
  next
    case None
    with Cons.prems have "t \<in> set rest" by auto
    with Cons.IH Cons.prems(2) obtain i q where i: "i < length rest"
      and q: "line_of cs (rest ! i) = Some q"
      and before: "\<forall>j<i. line_of cs (rest ! j) = None" by blast
    have "\<forall>j<Suc i. line_of cs ((u # rest) ! j) = None"
    proof (intro allI impI)
      fix j assume "j < Suc i"
      then show "line_of cs ((u # rest) ! j) = None"
        using None before by (cases j) auto
    qed
    with i q have "Suc i < length (u # rest) \<and> line_of cs ((u # rest) ! Suc i) = Some q \<and>
                   (\<forall>j<Suc i. line_of cs ((u # rest) ! j) = None)" by simp
    then show ?thesis by blast
  qed
qed


text \<open>
  \<^bold>\<open>C1.\<close> On every board in which some triple of \<open>wins\<close> holds three identical marks,
  \<open>checkWin\<close> returns a winner: the mark and the triple of the first such triple in the
  order of \<open>wins\<close> (rows from the top, columns from the left, the two diagonals). When
  only one triple is filled, that is this triple and its mark.
\<close>

theorem C1_checkWin_first_triple:
  assumes "t \<in> set wins" and "line_of cs t = Some p"
  shows "(\<exists>i<length wins. \<exists>q.
            line_of cs (wins ! i) = Some q \<and> (\<forall>j<i. line_of cs (wins ! j) = None) \<and>
            checkWin cs = Some (Winner q (wins ! i))) \<and>
         ((\<forall>u \<in> set wins. u \<noteq> t \<longrightarrow> line_of cs u = None) \<longrightarrow>
            checkWin cs = Some (Winner p t))"
proof -
  from first_line_exists [OF assms] obtain i q where i: "i < length wins"
    and q: "line_of cs (wins ! i) = Some q"
    and before: "\<forall>j<i. line_of cs (wins ! j) = None" by blast
  from scan_first [OF i q before] have cw: "checkWin cs = Some (Winner q (wins ! i))"
    by (simp add: checkWin_def)
  have only: "(\<forall>u \<in> set wins. u \<noteq> t \<longrightarrow> line_of cs u = None) \<longrightarrow>
      checkWin cs = Some (Winner p t)"
  proof
    assume alone: "\<forall>u \<in> set wins. u \<noteq> t \<longrightarrow> line_of cs u = None"
    from i have "wins ! i \<in> set wins" by simp
    with alone q have "wins ! i = t" by auto
    with q assms(2) cw show "checkWin cs = Some (Winner p t)" by simp
  qed
  from i q before cw only show ?thesis by blast
qed

theorem C1_checkWin_first_triple_witness:
  "checkWin [Some MarkX, Some MarkX, Some MarkX, Some MarkO, Some MarkO, Some MarkO,
             None, None, None] = Some (Winner MarkX (0, 1, 2)) \<and>
   checkWin [Some MarkX, None, Some MarkO, None, Some MarkO, Some MarkX,
             Some MarkO, Some MarkX, None] = Some (Winner MarkO (2, 4, 6))"
proof -
  let ?b = "[Some MarkX, Some MarkX, Some MarkX, Some MarkO, Some MarkO, Some MarkO,
             None, None, None]"
  let ?d = "[Some MarkX, None, Some MarkO, None, Some MarkO, Some MarkX,
             Some MarkO, Some MarkX, None]"
  have m: "(3, 4, 5) \<in> set wins" by code_simp
  have l: "line_of ?b (3, 4, 5) = Some MarkO" by code_simp
  have top: "line_of ?b (wins ! 0) = Some MarkX" by code_simp
  from C1_checkWin_first_triple [OF m l] obtain i q
    where q: "line_of ?b (wins ! i) = Some q"
      and before: "\<forall>j<i. line_of ?b (wins ! j) = None"
      and cw: "checkWin ?b = Some (Winner q (wins ! i))" by blast
  have "i = 0"
  proof (rule ccontr)
    assume "i \<noteq> 0"
    with before have "line_of ?b (wins ! 0) = None" by simp
    with top show False by simp
  qed
  with q top cw have first: "checkWin ?b = Some (Winner MarkX (0, 1, 2))"
    by (simp add: wins_def)
  have m': "(2, 4, 6) \<in> set wins" by code_simp
  have l': "line_of ?d (2, 4, 6) = Some MarkO" by code_simp
  have alone: "\<forall>u \<in> set wins. u \<noteq> (2, 4, 6) \<longrightarrow> line_of ?d u = None" by code_simp
  from C1_checkWin_first_triple [OF m' l'] alone
  have "checkWin ?d = Some (Winner MarkO (2, 4, 6))" by blast
  with first show ?thesis by simp
qed

text \<open>
  \<^bold>\<open>C2.\<close> On a board of nine cells in which no triple of \<open>wins\<close> holds three identical
  marks, \<open>checkWin\<close> returns the draw when every cell is marked, and \<open>null\<close> (the game
  goes on) when some cell is empty.
\<close>

theorem C2_checkWin_draw_or_continue:
  assumes "length cs = 9" and "\<forall>t \<in> set wins. line_of cs t = None"
  shows "((\<forall>i<9. cs ! i \<noteq> None) \<longrightarrow> checkWin cs = Some Draw) \<and>
         ((\<exists>i<9. cs ! i = None) \<longrightarrow> checkWin cs = None)"
proof -
  from assms(2) have "scan cs wins = None" by (rule scan_none)
  then have cw: "checkWin cs = (if list_all (\<lambda>c. c \<noteq> None) cs then Some Draw else None)"
    by (simp add: checkWin_def)
  have "list_all (\<lambda>c. c \<noteq> None) cs \<longleftrightarrow> (\<forall>i<9. cs ! i \<noteq> None)"
    using assms(1) by (simp add: list_all_length)
  with cw show ?thesis by auto
qed

theorem C2_checkWin_draw_or_continue_witness:
  "checkWin [Some MarkX, Some MarkO, Some MarkX, Some MarkX, Some MarkO, Some MarkO,
             Some MarkO, Some MarkX, Some MarkX] = Some Draw \<and>
   checkWin [Some MarkX, Some MarkO, Some MarkX, Some MarkX, Some MarkO, Some MarkO,
             Some MarkO, Some MarkX, None] = None"
proof -
  let ?f = "[Some MarkX, Some MarkO, Some MarkX, Some MarkX, Some MarkO, Some MarkO,
             Some MarkO, Some MarkX, Some MarkX]"
  let ?e = "[Some MarkX, Some MarkO, Some MarkX, Some MarkX, Some MarkO, Some MarkO,
             Some MarkO, Some MarkX, None]"
  have lf: "length ?f = 9" and le: "length ?e = 9" by simp_all
  have nf: "\<forall>t \<in> set wins. line_of ?f t = None" by code_simp
  have ne: "\<forall>t \<in> set wins. line_of ?e t = None" by code_simp
  have full: "\<forall>i<9. ?f ! i \<noteq> None" by code_simp
  have "?e ! 8 = None" by simp
  then have gap: "\<exists>i<9. ?e ! i = None" by (intro exI [of _ 8]) simp
  from C2_checkWin_draw_or_continue [OF lf nf] full
  have "checkWin ?f = Some Draw" by blast
  moreover from C2_checkWin_draw_or_continue [OF le ne] gap
  have "checkWin ?e = None" by blast
  ultimately show ?thesis by simp
qed

section \<open>Properties of the click handlers\<close>

lemma validateMove_Proceed:
  "validateMove g idx = Inr Proceed \<longleftrightarrow>
     \<not> isProcessing g \<and> \<not> finished g \<and> cells_at (cells g) idx = Val None"
  by (auto simp: validateMove_def refuse_def showInvalidFeedback_def Let_def
           split: option.splits)

lemma cells_at_Val:
  "cells_at cs idx = Val v \<longleftrightarrow> 0 \<le> idx \<and> nat idx < length cs \<and> cs ! nat idx = v"
  by (auto simp: cells_at_def)

lemma validateMove_in_range:
  assumes "0 \<le> idx" and "idx < 9"
  shows "validateMove g idx =
           Inr (if isProcessing g then Refuse Busy
                else if finished g then Refuse GameOver
                else if cells_at (cells g) idx \<noteq> Val None
                  then Refuse (CellOccupied (cells_at (cells g) idx))
                else Proceed)"
  using assms
  by (simp add: validateMove_def refuse_def showInvalidFeedback_def querySelector_def)

lemma cell_click_not_Proceed:
  "validateMove g idx \<noteq> Inr Proceed \<Longrightarrow> snd (cell_click g idx) = g"
  by (simp add: cell_click_def split: sum.splits verdict.splits)

lemma cell_click_Rejected:
  "fst (cell_click g idx) = Inr (Rejected r) \<longleftrightarrow> validateMove g idx = Inr (Refuse r)"
  by (auto simp: cell_click_def Let_def split: sum.splits verdict.splits option.splits)

lemma cell_click_Proceed:
  assumes "validateMove g idx = Inr Proceed"
  shows "cell_click g idx =
     (let cs = (cells g)[nat idx := Some (currentPlayer g)] in
      case checkWin cs of
        None \<Rightarrow> (Inr (Continued (toggle (currentPlayer g))),
                 g\<lparr>cells := cs, currentPlayer := toggle (currentPlayer g),
                   isProcessing := False\<rparr>)
      | Some r \<Rightarrow> (Inr (GameEnded r),
                 g\<lparr>cells := cs, finished := True, isProcessing := False,
                   score := (case r of Winner p combo \<Rightarrow> credit p (score g)
                             | Draw \<Rightarrow> (score g)\<lparr>draws := incr (draws (score g))\<rparr>)\<rparr>))"
  using assms
  by (simp add: cell_click_def Let_def split: option.splits result.splits)


lemma cell_click_cells:
  "validateMove g idx = Inr Proceed \<Longrightarrow>
   cells (snd (cell_click g idx)) = (cells g)[nat idx := Some (currentPlayer g)]"
  by (simp add: cell_click_Proceed Let_def split: option.splits)

lemma cell_click_lock:
  "validateMove g idx = Inr Proceed \<Longrightarrow> \<not> isProcessing (snd (cell_click g idx))"
  by (simp add: cell_click_Proceed Let_def split: option.splits)

lemma cell_click_fst:
  "validateMove g idx = Inr Proceed \<Longrightarrow>
   fst (cell_click g idx) =
     (case checkWin ((cells g)[nat idx := Some (currentPlayer g)]) of
        None \<Rightarrow> Inr (Continued (toggle (currentPlayer g)))
      | Some r \<Rightarrow> Inr (GameEnded r))"
  by (simp add: cell_click_Proceed Let_def split: option.splits)

lemma cell_click_finished:
  "validateMove g idx = Inr Proceed \<Longrightarrow>
   finished (snd (cell_click g idx)) =
     (checkWin ((cells g)[nat idx := Some (currentPlayer g)]) \<noteq> None)"
  using validateMove_Proceed [of g idx]
  by (auto simp: cell_click_Proceed Let_def split: option.splits)

lemma cell_click_currentPlayer:
  "validateMove g idx = Inr Proceed \<Longrightarrow>
   currentPlayer (snd (cell_click g idx)) =
     (if checkWin ((cells g)[nat idx := Some (currentPlayer g)]) = None
      then toggle (currentPlayer g) else currentPlayer g)"
  by (simp add: cell_click_Proceed Let_def split: option.splits)

lemma cell_click_score:
  "validateMove g idx = Inr Proceed \<Longrightarrow>
   score (snd (cell_click g idx)) =
     (case checkWin ((cells g)[nat idx := Some (currentPlayer g)]) of
        None \<Rightarrow> score g
      | Some (Winner p combo) \<Rightarrow> credit p (score g)
      | Some Draw \<Rightarrow> (score g)\<lparr>draws := incr (draws (score g))\<rparr>)"
  by (simp add: cell_click_Proceed Let_def split: option.splits result.splits)

text \<open>
  \<^bold>\<open>C3.\<close> A click on one of the nine cells checks, in this order, the lock, the end
  of the game and the cell, and the first check that fails gives the reason shown:
  \<open>Busy\<close> when \<open>isProcessing\<close> is set; else \<open>GameOver\<close> when \<open>finished\<close> is set; else
  \<open>CellOccupied\<close> with its mark when the cell is not empty. When all three pass the
  mark is placed, and the state changes only then.
\<close>

theorem C3_validation_order:
  assumes "0 \<le> idx" and "idx < 9" and "length (cells g) = 9"
  shows "(isProcessing g \<longrightarrow> fst (cell_click g idx) = Inr (Rejected Busy)) \<and>
         (\<not> isProcessing g \<and> finished g \<longrightarrow>
            fst (cell_click g idx) = Inr (Rejected GameOver)) \<and>
         (\<not> isProcessing g \<and> \<not> finished g \<and> cells g ! nat idx \<noteq> None \<longrightarrow>
            fst (cell_click g idx) = Inr (Rejected (CellOccupied (Val (cells g ! nat idx))))) \<and>
         (\<not> isProcessing g \<and> \<not> finished g \<and> cells g ! nat idx = None \<longrightarrow>
            (\<forall>r. fst (cell_click g idx) \<noteq> Inr (Rejected r)) \<and>
            fst (cell_click g idx) \<noteq> Inl TypeError \<and>
            cells (snd (cell_click g idx)) = (cells g)[nat idx := Some (currentPlayer g)]) \<and>
         (snd (cell_click g idx) \<noteq> g \<longrightarrow>
            \<not> isProcessing g \<and> \<not> finished g \<and> cells g ! nat idx = None)"
proof -
  from assms have at: "cells_at (cells g) idx = Val (cells g ! nat idx)"
    by (simp add: cells_at_def)
  note vm = validateMove_in_range [OF assms(1,2), of g, unfolded at]
  have busy: "isProcessing g \<longrightarrow> fst (cell_click g idx) = Inr (Rejected Busy)"
    by (simp add: cell_click_Rejected vm)
  have over: "\<not> isProcessing g \<and> finished g \<longrightarrow>
      fst (cell_click g idx) = Inr (Rejected GameOver)"
    by (simp add: cell_click_Rejected vm)
  have occ: "\<not> isProcessing g \<and> \<not> finished g \<and> cells g ! nat idx \<noteq> None \<longrightarrow>
      fst (cell_click g idx) = Inr (Rejected (CellOccupied (Val (cells g ! nat idx))))"
    by (simp add: cell_click_Rejected vm)
  have app: "\<not> isProcessing g \<and> \<not> finished g \<and> cells g ! nat idx = None \<longrightarrow>
      (\<forall>r. fst (cell_click g idx) \<noteq> Inr (Rejected r)) \<and>
      fst (cell_click g idx) \<noteq> Inl TypeError \<and>
      cells (snd (cell_click g idx)) = (cells g)[nat idx := Some (currentPlayer g)]"
  proof
    assume a: "\<not> isProcessing g \<and> \<not> finished g \<and> cells g ! nat idx = None"
    with vm have p: "validateMove g idx = Inr Proceed" by simp
    then show "(\<forall>r. fst (cell_click g idx) \<noteq> Inr (Rejected r)) \<and>
      fst (cell_click g idx) \<noteq> Inl TypeError \<and>
      cells (snd (cell_click g idx)) = (cells g)[nat idx := Some (currentPlayer g)]"
      by (simp add: cell_click_Rejected cell_click_cells cell_click_fst split: option.splits)
  qed
  have only: "snd (cell_click g idx) \<noteq> g \<longrightarrow>
      \<not> isProcessing g \<and> \<not> finished g \<and> cells g ! nat idx = None"
  proof
    assume "snd (cell_click g idx) \<noteq> g"
    with cell_click_not_Proceed have "validateMove g idx = Inr Proceed" by blast
    with at show "\<not> isProcessing g \<and> \<not> finished g \<and> cells g ! nat idx = None"
      by (simp add: validateMove_Proceed)
  qed
  from busy over occ app only show ?thesis by blast
qed

theorem C3_validation_order_witness:
  "fst (cell_click ((run init (map Click [0,3,1,4,2]))\<lparr>isProcessing := True\<rparr>) 0)
     = Inr (Rejected Busy) \<and>
   fst (cell_click (run init (map Click [0,3,1,4,2])) 0) = Inr (Rejected GameOver) \<and>
   fst (cell_click (run init [Click 0]) 0) = Inr (Rejected (CellOccupied (Val (Some MarkX)))) \<and>
   cells (snd (cell_click init 4))
     = [None, None, None, None, Some MarkX, None, None, None, None] \<and>
   \<not> finished init"
proof -
  let ?w = "run init (map Click [0,3,1,4,2])"
  let ?b = "?w\<lparr>isProcessing := True\<rparr>"
  let ?o = "run init [Click 0]"
  have r: "(0::int) \<le> 0" "(0::int) < 9" "(0::int) \<le> 4" "(4::int) < 9" by simp_all
  have lb: "length (cells ?b) = 9" by code_simp
  have hb: "isProcessing ?b" by simp
  from C3_validation_order [OF r(1,2) lb] hb
  have busy: "fst (cell_click ?b 0) = Inr (Rejected Busy)" by blast
  have lw: "length (cells ?w) = 9" by code_simp
  have hw: "\<not> isProcessing ?w \<and> finished ?w" by code_simp
  from C3_validation_order [OF r(1,2) lw] hw
  have over: "fst (cell_click ?w 0) = Inr (Rejected GameOver)" by blast
  have lo: "length (cells ?o) = 9" by code_simp
  have ho: "\<not> isProcessing ?o \<and> \<not> finished ?o \<and> cells ?o ! nat 0 \<noteq> None" by code_simp
  have vo: "cells ?o ! nat 0 = Some MarkX" by code_simp
  from C3_validation_order [OF r(1,2) lo] ho
  have "fst (cell_click ?o 0) = Inr (Rejected (CellOccupied (Val (cells ?o ! nat 0))))"
    by blast
  with vo have occ: "fst (cell_click ?o 0) = Inr (Rejected (CellOccupied (Val (Some MarkX))))"
    by simp
  have li: "length (cells init) = 9" by code_simp
  have hi: "\<not> isProcessing init \<and> \<not> finished init \<and> cells init ! nat 4 = None"
    by code_simp
  have vi: "(cells init)[nat 4 := Some (currentPlayer init)]
              = [None, None, None, None, Some MarkX, None, None, None, None]" by code_simp
  from C3_validation_order [OF r(3,4) li] hi
  have "cells (snd (cell_click init 4)) = (cells init)[nat 4 := Some (currentPlayer init)]"
    by blast
  with vi have app: "cells (snd (cell_click init 4))
              = [None, None, None, None, Some MarkX, None, None, None, None]" by simp
  have ch: "snd (cell_click init 4) \<noteq> init" by code_simp
  from C3_validation_order [OF r(3,4) li] ch have "\<not> finished init" by blast
  with busy over occ app show ?thesis by blast
qed

text \<open>
  \<^bold>\<open>C4.\<close> A click that is rejected, for any of the three reasons, leaves the whole
  state as it was: the board, the player to move, \<open>finished\<close> and the three counters.
\<close>

theorem C4_rejected_click_changes_nothing:
  assumes "fst (cell_click g idx) = Inr (Rejected r)"
  shows "snd (cell_click g idx) = g \<and>
         cells (snd (cell_click g idx)) = cells g \<and>
         currentPlayer (snd (cell_click g idx)) = currentPlayer g \<and>
         finished (snd (cell_click g idx)) = finished g \<and>
         score (snd (cell_click g idx)) = score g"
proof -
  from assms have "validateMove g idx = Inr (Refuse r)" by (simp add: cell_click_Rejected)
  then have "validateMove g idx \<noteq> Inr Proceed" by simp
  then have "snd (cell_click g idx) = g" by (rule cell_click_not_Proceed)
  then show ?thesis by simp
qed

theorem C4_rejected_click_changes_nothing_witness:
  "fst (cell_click (run init [Click 0]) 0) = Inr (Rejected (CellOccupied (Val (Some MarkX)))) \<and>
   snd (cell_click (run init [Click 0]) 0) = run init [Click 0]"
proof -
  have h: "fst (cell_click (run init [Click 0]) 0)
             = Inr (Rejected (CellOccupied (Val (Some MarkX))))" by code_simp
  from C4_rejected_click_changes_nothing [OF h] h show ?thesis by simp
qed

lemma clear_loop_length:
  "length (fold (\<lambda>i xs. xs[i := v]) [0..<n] cs) = length cs"
  by (induction n) simp_all

lemma clear_loop_nth:
  "k < length cs \<Longrightarrow>
   fold (\<lambda>i xs. xs[i := v]) [0..<n] cs ! k = (if k < n then v else cs ! k)"
  by (induction n) (auto simp: clear_loop_length nth_list_update less_Suc_eq)

lemma clear_cells_nine: "length cs = 9 \<Longrightarrow> clear_cells cs = replicate 9 None"
  unfolding clear_cells_def
  by (rule nth_equalityI) (simp_all add: clear_loop_length clear_loop_nth)

text \<open>
  \<^bold>\<open>C5.\<close> Whatever the state before, after the reset handler the nine cells are empty,
  X is to move, the game is in progress (\<open>finished\<close> is false) and the lock is clear; the
  three counters are as before.
\<close>

theorem C5_reset_clears_game_keeps_score:
  assumes "length (cells g) = 9"
  shows "cells (reset g) = replicate 9 None \<and> currentPlayer (reset g) = MarkX \<and>
         \<not> finished (reset g) \<and> \<not> isProcessing (reset g) \<and> score (reset g) = score g"
  using assms by (simp add: reset_def clear_cells_nine)


theorem C5_reset_clears_game_keeps_score_witness:
  "length (cells (run init (map Click [0,3,1,4,2]))) = 9 \<and>
   cells (reset (run init (map Click [0,3,1,4,2]))) = replicate 9 None \<and>
   currentPlayer (reset (run init (map Click [0,3,1,4,2]))) = MarkX \<and>
   \<not> finished (reset (run init (map Click [0,3,1,4,2]))) \<and>
   \<not> isProcessing (reset (run init (map Click [0,3,1,4,2]))) \<and>
   score (reset (run init (map Click [0,3,1,4,2])))
     = score (run init (map Click [0,3,1,4,2]))"
proof -
  have len: "length (cells (run init (map Click [0,3,1,4,2]))) = 9" by code_simp
  from C5_reset_clears_game_keeps_score [OF len] len show ?thesis by simp
qed

lemma toggle_toggle: "toggle (toggle p) = p"
  by (cases p) (simp_all add: toggle_def)

lemma toggle_neq: "toggle p \<noteq> p"
  by (cases p) (simp_all add: toggle_def)

lemma finished_no_movers: "finished g \<Longrightarrow> movers g idxs = []"
proof (induction idxs)
  case Nil
  show ?case by simp
next
  case (Cons idx rest)
  from Cons.prems have np: "validateMove g idx \<noteq> Inr Proceed"
    by (simp add: validateMove_Proceed)
  then have "snd (cell_click g idx) = g" by (rule cell_click_not_Proceed)
  with np Cons show ?case by simp
qed

lemma movers_alternate:
  "k < length (movers g idxs) \<Longrightarrow>
   movers g idxs ! k = (if even k then currentPlayer g else toggle (currentPlayer g))"
proof (induction idxs arbitrary: g k)
  case Nil
  then show ?case by simp
next
  case (Cons idx rest)
  let ?g' = "snd (cell_click g idx)"
  show ?case
  proof (cases "validateMove g idx = Inr Proceed")
    case False
    then have "?g' = g" by (rule cell_click_not_Proceed)
    with False Cons show ?thesis by simp
  next
    case True
    then have ms: "movers g (idx # rest) = currentPlayer g # movers ?g' rest" by simp
    show ?thesis
    proof (cases k)
      case 0
      with ms show ?thesis by simp
    next
      case (Suc k')
      with Cons.prems ms have len: "k' < length (movers ?g' rest)" by simp
      then have "movers ?g' rest \<noteq> []" by auto
      with finished_no_movers have "\<not> finished ?g'" by blast
      with True have "checkWin ((cells g)[nat idx := Some (currentPlayer g)]) = None"
        by (simp add: cell_click_finished)
      with True have cp: "currentPlayer ?g' = toggle (currentPlayer g)"
        by (simp add: cell_click_currentPlayer)
      from Cons.IH [OF len] cp Suc ms show ?thesis
        by (simp add: toggle_toggle)
    qed
  qed
qed

lemma cell_click_Continued:
  assumes "fst (cell_click g idx) = Inr (Continued p)"
  shows "validateMove g idx = Inr Proceed \<and>
         checkWin ((cells g)[nat idx := Some (currentPlayer g)]) = None \<and>
         p = toggle (currentPlayer g)"
proof -
  have vp: "validateMove g idx = Inr Proceed"
  proof (rule ccontr)
    assume "validateMove g idx \<noteq> Inr Proceed"
    with assms show False
      by (auto simp: cell_click_def split: sum.splits verdict.splits)
  qed
  with assms show ?thesis
    by (auto simp: cell_click_fst split: option.splits)
qed

lemma cell_click_GameEnded:
  assumes "fst (cell_click g idx) = Inr (GameEnded r)"
  shows "validateMove g idx = Inr Proceed \<and>
         checkWin ((cells g)[nat idx := Some (currentPlayer g)]) = Some r"
proof -
  have vp: "validateMove g idx = Inr Proceed"
  proof (rule ccontr)
    assume "validateMove g idx \<noteq> Inr Proceed"
    with assms show False
      by (auto simp: cell_click_def split: sum.splits verdict.splits)
  qed
  with assms show ?thesis
    by (auto simp: cell_click_fst split: option.splits)
qed

text \<open>
  \<^bold>\<open>C6.\<close> The game starts with X to move, and so it does after a reset. A click that
  is accepted and does not end the game hands the move to the other player. So from a
  state where X is to move, the marks placed by the accepted moves of any sequence of
  clicks are X, O, X, O, and so on: the move number \<open>k\<close> (from 0) places X when \<open>k\<close> is
  even and O when it is odd.
\<close>

theorem C6_turns_alternate_from_X:
  "currentPlayer init = MarkX \<and> currentPlayer (reset g0) = MarkX \<and>
   (\<forall>p. fst (cell_click g idx) = Inr (Continued p) \<longrightarrow>
      currentPlayer (snd (cell_click g idx)) = p \<and>
      p = (if currentPlayer g = MarkX then MarkO else MarkX)) \<and>
   (currentPlayer g = MarkX \<longrightarrow>
      (\<forall>k<length (movers g idxs).
         movers g idxs ! k = (if even k then MarkX else MarkO)))"
proof -
  have start: "currentPlayer init = MarkX \<and> currentPlayer (reset g0) = MarkX"
    by (simp add: init_def reset_def)
  have flip: "\<forall>p. fst (cell_click g idx) = Inr (Continued p) \<longrightarrow>
      currentPlayer (snd (cell_click g idx)) = p \<and>
      p = (if currentPlayer g = MarkX then MarkO else MarkX)"
  proof (intro allI impI)
    fix p assume "fst (cell_click g idx) = Inr (Continued p)"
    from cell_click_Continued [OF this]
    show "currentPlayer (snd (cell_click g idx)) = p \<and>
          p = (if currentPlayer g = MarkX then MarkO else MarkX)"
      by (simp add: cell_click_currentPlayer toggle_def)
  qed
  have alt: "currentPlayer g = MarkX \<longrightarrow>
      (\<forall>k<length (movers g idxs).
         movers g idxs ! k = (if even k then MarkX else MarkO))"
    by (simp add: movers_alternate toggle_def)
  from start flip alt show ?thesis by blast
qed

theorem C6_turns_alternate_from_X_witness:
  "currentPlayer (snd (cell_click init 4)) = MarkO \<and>
   movers init [0,0,3,1,4,9,2,5] ! 3 = MarkO \<and>
   movers init [0,0,3,1,4,9,2,5] ! 4 = MarkX"
proof -
  let ?is = "[0,0,3,1,4,9,2,5]"
  note c6 = C6_turns_alternate_from_X [of init init 4 ?is]
  have c: "fst (cell_click init 4) = Inr (Continued MarkO)" by code_simp
  with c6 have flip: "currentPlayer (snd (cell_click init 4)) = MarkO" by blast
  have cp: "currentPlayer init = MarkX" by code_simp
  with c6 have alt: "\<forall>k<length (movers init ?is).
      movers init ?is ! k = (if even k then MarkX else MarkO)" by blast
  have k3: "3 < length (movers init ?is)" and k4: "4 < length (movers init ?is)"
    by code_simp+
  from alt k3 have "movers init ?is ! 3 = (if even (3::nat) then MarkX else MarkO)" by blast
  then have m3: "movers init ?is ! 3 = MarkO" by simp
  from alt k4 have "movers init ?is ! 4 = (if even (4::nat) then MarkX else MarkO)" by blast
  then have m4: "movers init ?is ! 4 = MarkX" by simp
  from flip m3 m4 show ?thesis by simp
qed

lemma step_Click_keeps:
  assumes "j < length (cells g)" and "cells g ! j \<noteq> None"
  shows "cells (snd (cell_click g idx)) ! j = cells g ! j"
proof (cases "validateMove g idx = Inr Proceed")
  case False
  then show ?thesis by (simp add: cell_click_not_Proceed)
next
  case True
  then have "cells g ! nat idx = None"
    by (simp add: validateMove_Proceed cells_at_Val)
  with assms(2) have "j \<noteq> nat idx" by auto
  with True show ?thesis by (simp add: cell_click_cells)
qed

lemma cell_click_length: "length (cells (snd (cell_click g idx))) = length (cells g)"
proof (cases "validateMove g idx = Inr Proceed")
  case False
  then show ?thesis by (simp add: cell_click_not_Proceed)
next
  case True
  then show ?thesis by (simp add: cell_click_cells)
qed

lemma clicks_keep:
  "j < length (cells g) \<Longrightarrow> cells g ! j \<noteq> None \<Longrightarrow>
   cells (run g (map Click idxs)) ! j = cells g ! j"
proof (induction idxs arbitrary: g)
  case Nil
  show ?case by (simp add: run_def)
next
  case (Cons idx rest)
  let ?g' = "snd (cell_click g idx)"
  from Cons.prems have same: "cells ?g' ! j = cells g ! j" by (rule step_Click_keeps)
  with Cons.prems have "j < length (cells ?g')" and "cells ?g' ! j \<noteq> None"
    by (simp_all add: cell_click_length)
  then have "cells (run ?g' (map Click rest)) ! j = cells ?g' ! j" by (rule Cons.IH)
  with same show ?case by (simp add: run_def)
qed

text \<open>
  \<^bold>\<open>C7.\<close> An accepted move at \<open>idx\<close> changes the cell \<open>idx\<close>, which was empty, to the
  mark of the player who moved, and changes no other cell. No click on a cell, accepted
  or not, and no sequence of such clicks changes a cell that holds a mark: only the
  reset handler empties cells.
\<close>

theorem C7_move_writes_one_empty_cell:
  "(validateMove g idx = Inr Proceed \<longrightarrow>
      0 \<le> idx \<and> nat idx < length (cells g) \<and> cells g ! nat idx = None \<and>
      cells (snd (cell_click g idx)) ! nat idx = Some (currentPlayer g) \<and>
      length (cells (snd (cell_click g idx))) = length (cells g) \<and>
      (\<forall>j<length (cells g). j \<noteq> nat idx \<longrightarrow>
         cells (snd (cell_click g idx)) ! j = cells g ! j)) \<and>
   (\<forall>j<length (cells g). cells g ! j \<noteq> None \<longrightarrow>
      cells (snd (cell_click g idx)) ! j = cells g ! j \<and>
      cells (run g (map Click idxs)) ! j = cells g ! j)"
proof -
  have acc: "validateMove g idx = Inr Proceed \<longrightarrow>
      0 \<le> idx \<and> nat idx < length (cells g) \<and> cells g ! nat idx = None \<and>
      cells (snd (cell_click g idx)) ! nat idx = Some (currentPlayer g) \<and>
      length (cells (snd (cell_click g idx))) = length (cells g) \<and>
      (\<forall>j<length (cells g). j \<noteq> nat idx \<longrightarrow>
         cells (snd (cell_click g idx)) ! j = cells g ! j)"
  proof
    assume vp: "validateMove g idx = Inr Proceed"
    then have r: "0 \<le> idx \<and> nat idx < length (cells g) \<and> cells g ! nat idx = None"
      by (simp add: validateMove_Proceed cells_at_Val)
    with vp show "0 \<le> idx \<and> nat idx < length (cells g) \<and> cells g ! nat idx = None \<and>
      cells (snd (cell_click g idx)) ! nat idx = Some (currentPlayer g) \<and>
      length (cells (snd (cell_click g idx))) = length (cells g) \<and>
      (\<forall>j<length (cells g). j \<noteq> nat idx \<longrightarrow>
         cells (snd (cell_click g idx)) ! j = cells g ! j)"
      by (simp add: cell_click_cells)
  qed
  have keep: "\<forall>j<length (cells g). cells g ! j \<noteq> None \<longrightarrow>
      cells (snd (cell_click g idx)) ! j = cells g ! j \<and>
      cells (run g (map Click idxs)) ! j = cells g ! j"
    by (simp add: step_Click_keeps clicks_keep)
  from acc keep show ?thesis by blast
qed


theorem C7_move_writes_one_empty_cell_witness:
  "cells init ! nat 4 = None \<and>
   cells (snd (cell_click init 4)) ! nat 4 = Some MarkX \<and>
   cells (snd (cell_click init 4)) ! 0 = cells init ! 0 \<and>
   cells (snd (cell_click (run init [Click 0]) 0)) ! 0 = Some MarkX \<and>
   cells (run (run init [Click 0]) (map Click [0,1,0])) ! 0 = Some MarkX"
proof -
  let ?o = "run init [Click 0]"
  note a = C7_move_writes_one_empty_cell [of init 4 "[]"]
  have vp: "validateMove init 4 = Inr Proceed" by code_simp
  have cp: "currentPlayer init = MarkX" by code_simp
  from a vp have e: "cells init ! nat 4 = None"
    and w: "cells (snd (cell_click init 4)) ! nat 4 = Some (currentPlayer init)"
    and others: "\<forall>j<length (cells init). j \<noteq> nat 4 \<longrightarrow>
        cells (snd (cell_click init 4)) ! j = cells init ! j" by blast+
  have j: "0 < length (cells init)" "0 \<noteq> nat 4" by code_simp+
  with others have same: "cells (snd (cell_click init 4)) ! 0 = cells init ! 0" by blast
  note b = C7_move_writes_one_empty_cell [of ?o 0 "[0,1,0]"]
  have jo: "0 < length (cells ?o)" and mo: "cells ?o ! 0 \<noteq> None" by code_simp+
  have vo: "cells ?o ! 0 = Some MarkX" by code_simp
  from b jo mo have "cells (snd (cell_click ?o 0)) ! 0 = cells ?o ! 0 \<and>
      cells (run ?o (map Click [0,1,0])) ! 0 = cells ?o ! 0" by blast
  with vo e w cp same show ?thesis by simp
qed

lemma reset_score: "score (reset g) = score g"
  by (simp add: reset_def)

lemma cell_click_score_mono:
  "scoreX (score g) \<le> scoreX (score (snd (cell_click g idx))) \<and>
   scoreO (score g) \<le> scoreO (score (snd (cell_click g idx))) \<and>
   draws (score g) \<le> draws (score (snd (cell_click g idx)))"
proof (cases "validateMove g idx = Inr Proceed")
  case False
  then show ?thesis by (simp add: cell_click_not_Proceed)
next
  case True
  then show ?thesis
    by (simp add: cell_click_score credit_def incr_def
             split: option.splits result.splits player.splits)
qed

lemma step_score_mono:
  "scoreX (score g) \<le> scoreX (score (step g ev)) \<and>
   scoreO (score g) \<le> scoreO (score (step g ev)) \<and>
   draws (score g) \<le> draws (score (step g ev))"
  by (cases ev) (simp_all add: cell_click_score_mono reset_score)

lemma run_score_mono:
  "scoreX (score g) \<le> scoreX (score (run g evs)) \<and>
   scoreO (score g) \<le> scoreO (score (run g evs)) \<and>
   draws (score g) \<le> draws (score (run g evs))"
proof (induction evs arbitrary: g)
  case Nil
  show ?case by (simp add: run_def)
next
  case (Cons ev rest)
  from Cons.IH [of "step g ev"] step_score_mono [of g ev]
  show ?case by (simp add: run_def)
qed

lemma cell_click_no_end_score:
  assumes "\<forall>r. fst (cell_click g idx) \<noteq> Inr (GameEnded r)"
  shows "score (snd (cell_click g idx)) = score g"
proof (cases "validateMove g idx = Inr Proceed")
  case False
  then show ?thesis by (simp add: cell_click_not_Proceed)
next
  case True
  with assms have "checkWin ((cells g)[nat idx := Some (currentPlayer g)]) = None"
    by (auto simp: cell_click_fst split: option.splits)
  with True show ?thesis by (simp add: cell_click_score)
qed

lemma incr_ge: "n \<le> incr n"
  by (simp add: incr_def)

lemma incr_below: "n < 9007199254740992 \<Longrightarrow> incr n = n + 1"
  by (simp add: incr_def)

text \<open>
  \<^bold>\<open>C8.\<close> Over any sequence of cell clicks and resets none of the three counters ever
  goes down. A click that ends the game adds one to exactly one counter, that of the
  winner or \<open>draws\<close>, and leaves the other two, as long as that counter is below
  \<open>2 ^ 53\<close>, where the numbers of JavaScript count exactly; any other click leaves all
  three; and the reset handler leaves all three.
\<close>

theorem C8_score_monotone:
  "(scoreX (score g) \<le> scoreX (score (run g evs)) \<and>
    scoreO (score g) \<le> scoreO (score (run g evs)) \<and>
    draws (score g) \<le> draws (score (run g evs))) \<and>
   (\<forall>t. fst (cell_click g idx) = Inr (GameEnded (Winner MarkX t)) \<and>
        scoreX (score g) < 9007199254740992 \<longrightarrow>
      score (snd (cell_click g idx)) = (score g)\<lparr>scoreX := scoreX (score g) + 1\<rparr>) \<and>
   (\<forall>t. fst (cell_click g idx) = Inr (GameEnded (Winner MarkO t)) \<and>
        scoreO (score g) < 9007199254740992 \<longrightarrow>
      score (snd (cell_click g idx)) = (score g)\<lparr>scoreO := scoreO (score g) + 1\<rparr>) \<and>
   (fst (cell_click g idx) = Inr (GameEnded Draw) \<and>
        draws (score g) < 9007199254740992 \<longrightarrow>
      score (snd (cell_click g idx)) = (score g)\<lparr>draws := draws (score g) + 1\<rparr>) \<and>
   ((\<forall>r. fst (cell_click g idx) \<noteq> Inr (GameEnded r)) \<longrightarrow>
      score (snd (cell_click g idx)) = score g) \<and>
   score (reset g) = score g"
proof -
  have wx: "\<forall>t. fst (cell_click g idx) = Inr (GameEnded (Winner MarkX t)) \<and>
        scoreX (score g) < 9007199254740992 \<longrightarrow>
      score (snd (cell_click g idx)) = (score g)\<lparr>scoreX := scoreX (score g) + 1\<rparr>"
  proof (intro allI impI)
    fix t assume a: "fst (cell_click g idx) = Inr (GameEnded (Winner MarkX t)) \<and>
        scoreX (score g) < 9007199254740992"
    from a have e: "fst (cell_click g idx) = Inr (GameEnded (Winner MarkX t))" by simp
    from a have "incr (scoreX (score g)) = scoreX (score g) + 1" by (simp add: incr_below)
    with cell_click_GameEnded [OF e]
    show "score (snd (cell_click g idx)) = (score g)\<lparr>scoreX := scoreX (score g) + 1\<rparr>"
      by (simp add: cell_click_score credit_def)
  qed
  have wo: "\<forall>t. fst (cell_click g idx) = Inr (GameEnded (Winner MarkO t)) \<and>
        scoreO (score g) < 9007199254740992 \<longrightarrow>
      score (snd (cell_click g idx)) = (score g)\<lparr>scoreO := scoreO (score g) + 1\<rparr>"
  proof (intro allI impI)
    fix t assume a: "fst (cell_click g idx) = Inr (GameEnded (Winner MarkO t)) \<and>
        scoreO (score g) < 9007199254740992"
    from a have e: "fst (cell_click g idx) = Inr (GameEnded (Winner MarkO t))" by simp
    from a have "incr (scoreO (score g)) = scoreO (score g) + 1" by (simp add: incr_below)
    with cell_click_GameEnded [OF e]
    show "score (snd (cell_click g idx)) = (score g)\<lparr>scoreO := scoreO (score g) + 1\<rparr>"
      by (simp add: cell_click_score credit_def)
  qed
  have dr: "fst (cell_click g idx) = Inr (GameEnded Draw) \<and>
        draws (score g) < 9007199254740992 \<longrightarrow>
      score (snd (cell_click g idx)) = (score g)\<lparr>draws := draws (score g) + 1\<rparr>"
  proof
    assume a: "fst (cell_click g idx) = Inr (GameEnded Draw) \<and>
        draws (score g) < 9007199254740992"
    from a have e: "fst (cell_click g idx) = Inr (GameEnded Draw)" by simp
    from a have "incr (draws (score g)) = draws (score g) + 1" by (simp add: incr_below)
    with cell_click_GameEnded [OF e]
    show "score (snd (cell_click g idx)) = (score g)\<lparr>draws := draws (score g) + 1\<rparr>"
      by (simp add: cell_click_score)
  qed
  have no: "(\<forall>r. fst (cell_click g idx) \<noteq> Inr (GameEnded r)) \<longrightarrow>
      score (snd (cell_click g idx)) = score g"
    using cell_click_no_end_score by blast
  from run_score_mono [of g evs] wx wo dr no reset_score [of g] show ?thesis by blast
qed

theorem C8_score_monotone_witness:
  "score (snd (cell_click (run init (map Click [0,3,1,4])) 2))
     = \<lparr>scoreX = 1, scoreO = 0, draws = 0\<rparr> \<and>
   score (snd (cell_click (run init (map Click [0,3,1,4,8])) 5))
     = \<lparr>scoreX = 0, scoreO = 1, draws = 0\<rparr> \<and>
   score (snd (cell_click (run init (map Click [0,1,2,4,3,5,7,6])) 8))
     = \<lparr>scoreX = 0, scoreO = 0, draws = 1\<rparr> \<and>
   score (snd (cell_click init 4)) = score init"
proof -
  let ?x = "run init (map Click [0,3,1,4])"
  let ?o = "run init (map Click [0,3,1,4,8])"
  let ?d = "run init (map Click [0,1,2,4,3,5,7,6])"
  have hx: "fst (cell_click ?x 2) = Inr (GameEnded (Winner MarkX (0, 1, 2)))" by code_simp
  have zx: "scoreX (score ?x) = 0" by code_simp
  then have bx: "scoreX (score ?x) < 9007199254740992" by simp
  have sx: "(score ?x)\<lparr>scoreX := scoreX (score ?x) + 1\<rparr>
              = \<lparr>scoreX = 1, scoreO = 0, draws = 0\<rparr>" by code_simp
  from C8_score_monotone [of ?x "[]" 2] hx bx
  have "score (snd (cell_click ?x 2)) = (score ?x)\<lparr>scoreX := scoreX (score ?x) + 1\<rparr>"
    by blast
  with sx have x: "score (snd (cell_click ?x 2)) = \<lparr>scoreX = 1, scoreO = 0, draws = 0\<rparr>"
    by simp
  have ho: "fst (cell_click ?o 5) = Inr (GameEnded (Winner MarkO (3, 4, 5)))" by code_simp
  have zo: "scoreO (score ?o) = 0" by code_simp
  then have bo: "scoreO (score ?o) < 9007199254740992" by simp
  have so: "(score ?o)\<lparr>scoreO := scoreO (score ?o) + 1\<rparr>
              = \<lparr>scoreX = 0, scoreO = 1, draws = 0\<rparr>" by code_simp
  from C8_score_monotone [of ?o "[]" 5] ho bo
  have "score (snd (cell_click ?o 5)) = (score ?o)\<lparr>scoreO := scoreO (score ?o) + 1\<rparr>"
    by blast
  with so have o: "score (snd (cell_click ?o 5)) = \<lparr>scoreX = 0, scoreO = 1, draws = 0\<rparr>"
    by simp
  have hd: "fst (cell_click ?d 8) = Inr (GameEnded Draw)" by code_simp
  have zd: "draws (score ?d) = 0" by code_simp
  then have bd: "draws (score ?d) < 9007199254740992" by simp
  have sd: "(score ?d)\<lparr>draws := draws (score ?d) + 1\<rparr>
              = \<lparr>scoreX = 0, scoreO = 0, draws = 1\<rparr>" by code_simp
  from C8_score_monotone [of ?d "[]" 8] hd bd
  have "score (snd (cell_click ?d 8)) = (score ?d)\<lparr>draws := draws (score ?d) + 1\<rparr>"
    by blast
  with sd have d: "score (snd (cell_click ?d 8)) = \<lparr>scoreX = 0, scoreO = 0, draws = 1\<rparr>"
    by simp
  have hc: "fst (cell_click init 4) = Inr (Continued MarkO)" by code_simp
  then have "\<forall>r. fst (cell_click init 4) \<noteq> Inr (GameEnded r)" by simp
  with C8_score_monotone [of init "[]" 4]
  have n: "score (snd (cell_click init 4)) = score init" by blast
  from x o d n show ?thesis by simp
qed

lemma cell_click_lock_free:
  "\<not> isProcessing g \<Longrightarrow> \<not> isProcessing (snd (cell_click g idx))"
proof (cases "validateMove g idx = Inr Proceed")
  case False
  assume "\<not> isProcessing g"
  with False show ?thesis by (simp add: cell_click_not_Proceed)
next
  case True
  then show ?thesis by (rule cell_click_lock)
qed

lemma step_lock_free: "\<not> isProcessing g \<Longrightarrow> \<not> isProcessing (step g ev)"
  by (cases ev) (simp_all add: cell_click_lock_free reset_def)

lemma run_lock_free: "\<not> isProcessing g \<Longrightarrow> \<not> isProcessing (run g evs)"
proof (induction evs arbitrary: g)
  case Nil
  then show ?case by (simp add: run_def)
next
  case (Cons ev rest)
  from Cons.prems have "\<not> isProcessing (step g ev)" by (rule step_lock_free)
  then have "\<not> isProcessing (run (step g ev) rest)" by (rule Cons.IH)
  then show ?case by (simp add: run_def)
qed

text \<open>
  \<^bold>\<open>C9.\<close> The lock is clear after every handler: in every state a session reaches from
  \<open>init\<close> by cell clicks and resets \<open>isProcessing\<close> is false. An accepted move sets it
  for the time of its evaluation and clears it before the handler ends; a rejected click
  does not take it, and never finds it set; the reset handler clears it.
\<close>

theorem C9_lock_released:
  "\<not> isProcessing (run init evs) \<and>
   (\<not> isProcessing g \<longrightarrow> \<not> isProcessing (snd (cell_click g idx))) \<and>
   (validateMove g idx = Inr Proceed \<longrightarrow> \<not> isProcessing (snd (cell_click g idx))) \<and>
   \<not> isProcessing (reset g)"
proof -
  have "\<not> isProcessing init" by (simp add: init_def)
  then have "\<not> isProcessing (run init evs)" by (rule run_lock_free)
  moreover have "\<not> isProcessing (reset g)" by (simp add: reset_def)
  ultimately show ?thesis
    using cell_click_lock_free [of g idx] cell_click_lock [of g idx] by blast
qed

theorem C9_lock_released_witness:
  "\<not> isProcessing init \<and> validateMove init 0 = Inr Proceed \<and>
   \<not> isProcessing (snd (cell_click init 0)) \<and>
   \<not> isProcessing (snd (cell_click (run init [Click 0]) 0))"
proof -
  let ?o = "run init [Click 0]"
  have vp: "validateMove init 0 = Inr Proceed" by code_simp
  with C9_lock_released [of "[]" init 0]
  have a: "\<not> isProcessing (snd (cell_click init 0))" by blast
  have f: "\<not> isProcessing init" and fo: "\<not> isProcessing ?o" by code_simp+
  from C9_lock_released [of "[]" ?o 0] fo
  have b: "\<not> isProcessing (snd (cell_click ?o 0))" by blast
  from vp a f b show ?thesis by simp
qed

text \<open>The array keeps its nine entries through every session.\<close>

lemma step_board_ok: "board_ok g \<Longrightarrow> board_ok (step g ev)"
  by (cases ev)
     (simp_all add: board_ok_def cell_click_length reset_def clear_cells_def clear_loop_length)

lemma run_board_ok: "board_ok g \<Longrightarrow> board_ok (run g evs)"
proof (induction evs arbitrary: g)
  case Nil
  then show ?case by (simp add: run_def)
next
  case (Cons ev rest)
  from Cons.prems have "board_ok (step g ev)" by (rule step_board_ok)
  then have "board_ok (run (step g ev) rest)" by (rule Cons.IH)
  then show ?case by (simp add: run_def)
qed

lemma session_board_ok: "length (cells (run init evs)) = 9"
proof -
  have "board_ok init" by (simp add: board_ok_def init_def)
  then have "board_ok (run init evs)" by (rule run_board_ok)
  then show ?thesis by (simp add: board_ok_def)
qed

text \<open>On the page as start-up builds it the two readings of the handler agree.\<close>

lemma querySelector_on_built: "querySelector_on built idx = querySelector idx"
  by (auto simp: querySelector_on_def built_def querySelector_def)

lemma validateMove_on_built: "validateMove_on built g idx = validateMove g idx"
  by (simp add: validateMove_on_def validateMove_def querySelector_on_built)

lemma cell_click_on_built: "cell_click_on built g idx = cell_click g idx"
  by (simp add: cell_click_on_def cell_click_def validateMove_on_built)




end
